theory Spec2Isabelle
  imports Main "HOL-Library.Word"
begin

unbundle bit_operations_syntax

section \<open>The two's-complement decoder of the notebook\<close>

text \<open>
  The decoder of the notebook \<^verbatim>\<open>Optimization/Session 3.ipynb\<close>:
  \<^verbatim>\<open>
  # Converts two's complement bit string to corresponding integer
  def twos_complement(val, num_bits):
      val = int(val, 2)
      if (val & (1 << (num_bits - 1))) != 0:
          val = val - (1 << num_bits)
      return val
  \<close>
  Python integers are unbounded, so they are \<^typ>\<open>int\<close> here. Both failures of the body
  are \<^verbatim>\<open>ValueError\<close>s: \<^verbatim>\<open>int(val, 2)\<close> on a string that is no binary literal, and a
  shift by a negative count.
\<close>

datatype py_error = ValueError_invalid_literal | ValueError_negative_shift_count

text \<open>
  \<^verbatim>\<open>int(val, 2)\<close> on a string of ASCII characters, in the stages of the interpreter:
  blanks are skipped at both ends, then a sign is read, then a prefix \<^verbatim>\<open>0b\<close> or \<^verbatim>\<open>0B\<close>
  with at most one underscore after it, then the digits \<^verbatim>\<open>0\<close> and \<^verbatim>\<open>1\<close>, most
  significant first, with single underscores between them. A literal with no digit, with
  an underscore at the start, at the end or after another underscore, or with any other
  character is a \<^verbatim>\<open>ValueError\<close>. A character outside ASCII is refused as any other
  character is (Python reads Unicode blanks and Unicode decimal digits there).
\<close>

definition is_space :: "char \<Rightarrow> bool" where
  "is_space c = (c \<in> set [CHR 0x09, CHR 0x0A, CHR 0x0B, CHR 0x0C, CHR 0x0D, CHR 0x20])"

text \<open>The sign: whether the literal is negative, and what follows the sign.\<close>

fun skip_sign :: "string \<Rightarrow> bool \<times> string" where
  "skip_sign [] = (False, [])"
| "skip_sign (c # cs) =
     (if c = CHR ''-'' then (True, cs) else if c = CHR ''+'' then (False, cs)
      else (False, c # cs))"

text \<open>The prefix \<^verbatim>\<open>0b\<close> or \<^verbatim>\<open>0B\<close>, and one underscore after it.\<close>

fun skip_prefix :: "string \<Rightarrow> string" where
  "skip_prefix (z # b # cs) =
     (if z = CHR ''0'' \<and> (b = CHR ''b'' \<or> b = CHR ''B'')
      then (case cs of [] \<Rightarrow> [] | u # cs' \<Rightarrow> if u = CHR ''_'' then cs' else cs)
      else z # b # cs)"
| "skip_prefix cs = cs"

text \<open>
  The digits: the value read so far, whether the last character was an underscore, and
  the rest of the string. The result is the value and what follows the digits.
\<close>

fun int_base2_from :: "int \<Rightarrow> bool \<Rightarrow> string \<Rightarrow> py_error + int \<times> string" where
  "int_base2_from acc after_underscore [] =
     (if after_underscore then Inl ValueError_invalid_literal else Inr (acc, []))"
| "int_base2_from acc after_underscore (c # cs) =
     (if c = CHR ''0'' then int_base2_from (2 * acc) False cs
      else if c = CHR ''1'' then int_base2_from (2 * acc + 1) False cs
      else if c = CHR ''_''
      then (if after_underscore then Inl ValueError_invalid_literal
            else int_base2_from acc True cs)
      else if after_underscore then Inl ValueError_invalid_literal
      else Inr (acc, c # cs))"

definition int_base2 :: "string \<Rightarrow> py_error + int" where
  "int_base2 s =
     (case skip_sign (dropWhile is_space s) of
        (negative, signless) \<Rightarrow>
          (case skip_prefix signless of
             [] \<Rightarrow> Inl ValueError_invalid_literal
           | c # cs \<Rightarrow>
               if c \<noteq> CHR ''0'' \<and> c \<noteq> CHR ''1'' then Inl ValueError_invalid_literal
               else (case int_base2_from 0 False (c # cs) of
                       Inl e \<Rightarrow> Inl e
                     | Inr (v, rest) \<Rightarrow>
                         if dropWhile is_space rest = []
                         then Inr (if negative then - v else v)
                         else Inl ValueError_invalid_literal)))"

text \<open>\<^verbatim>\<open>1 << k\<close>: Python raises \<^verbatim>\<open>ValueError\<close> when \<open>k\<close> is negative.\<close>

definition shl1 :: "int \<Rightarrow> py_error + int" where
  "shl1 k = (if k < 0 then Inl ValueError_negative_shift_count else Inr (push_bit (nat k) 1))"

definition twos_complement :: "string \<Rightarrow> int \<Rightarrow> py_error + int" where
  "twos_complement val num_bits =
     (case int_base2 val of
        Inl e \<Rightarrow> Inl e
      | Inr v \<Rightarrow>
          (case shl1 (num_bits - 1) of
             Inl e \<Rightarrow> Inl e
           | Inr sign_mask \<Rightarrow>
               if v AND sign_mask \<noteq> 0
               then (case shl1 num_bits of Inl e \<Rightarrow> Inl e | Inr modulus \<Rightarrow> Inr (v - modulus))
               else Inr v))"

subsection \<open>Bit strings and their unsigned value\<close>

definition bitstring :: "string \<Rightarrow> bool" where
  "bitstring b = list_all (\<lambda>c. c = CHR ''0'' \<or> c = CHR ''1'') b"

text \<open>
  The unsigned value of a bit string, by positional weights: the character at the head
  of a string of length \<open>w\<close> weighs \<open>2 ^ (w - 1)\<close>.
\<close>

fun unsigned_value :: "string \<Rightarrow> int" where
  "unsigned_value [] = 0"
| "unsigned_value (c # cs) = (if c = CHR ''1'' then 2 ^ length cs else 0) + unsigned_value cs"

subsection \<open>The encoder of the codec\<close>

text \<open>
  Modelled from the spec: the notebook has no encoder from integers to bit strings (its
  \<^verbatim>\<open>encode(num_qubits, k)\<close> builds a circuit of phase rotations). The spec describes
  \<^verbatim>\<open>encode(value, width)\<close> as the inverse mapping of the decoder, failing with
  \<^verbatim>\<open>RangeError\<close> when the value is outside the representable range for \<open>width\<close> bits.
  The model writes the \<open>width\<close> binary digits of \<open>value mod 2 ^ width\<close>, most
  significant first; \<open>bit u k\<close> is the digit of weight \<open>2 ^ k\<close>. A width of 0 holds no
  value.
\<close>

datatype codec_error = RangeError

fun binary_digits :: "nat \<Rightarrow> int \<Rightarrow> string" where
  "binary_digits 0 u = []"
| "binary_digits (Suc k) u = (if bit u k then CHR ''1'' else CHR ''0'') # binary_digits k u"

definition representable :: "nat \<Rightarrow> int \<Rightarrow> bool" where
  "representable w v = (1 \<le> w \<and> - (2 ^ (w - 1)) \<le> v \<and> v \<le> 2 ^ (w - 1) - 1)"

definition encode :: "int \<Rightarrow> nat \<Rightarrow> codec_error + string" where
  "encode v w =
     (if representable w v then Inr (binary_digits w (v mod 2 ^ w)) else Inl RangeError)"

section \<open>The Grover oracle circuit\<close>

text \<open>
  The notebook builds the oracle from the library's quadratic-form circuit \<^verbatim>\<open>qf\<close>, which
  acts on \<^verbatim>\<open>n\<close> data qubits followed by \<^verbatim>\<open>num_value_qubits\<close> value qubits:
  \<^verbatim>\<open>
  qc = QuantumCircuit(n + num_value_qubits, name='U_f')
  qc.append(qf, range(n + num_value_qubits))            # 1. compute Q(x)
  qc.z(qc.qubits[-1])                                   # 2. multiply all |x>|Q(x)> by -1 where Q(x) < 0.
  qc.append(qf.inverse(), range(n + num_value_qubits))  # 3. uncompute Q(x).
  \<close>
  The circuit is followed on computational basis states. A basis state is the list of
  its qubits, qubit \<open>i\<close> at index \<open>i\<close>; a \<open>ket\<close> is a basis state with the sign of its
  amplitude. A gate sends a basis state to a basis state and says whether the amplitude
  changes sign; applied to a \<open>ket\<close> it is linear in the sign.
\<close>

type_synonym basis = "bool list"

record ket =
  negated :: bool
  qubits :: basis

type_synonym gate = "basis \<Rightarrow> bool \<times> basis"

definition apply_gate :: "gate \<Rightarrow> ket \<Rightarrow> ket" where
  "apply_gate g k =
     (case g (qubits k) of (flip, q) \<Rightarrow> \<lparr>negated = (negated k \<noteq> flip), qubits = q\<rparr>)"

definition run :: "gate list \<Rightarrow> ket \<Rightarrow> ket" where
  "run c k = fold apply_gate c k"

text \<open>The Pauli Z gate on qubit \<open>q\<close>: the sign changes exactly when the qubit is 1.\<close>

definition z :: "nat \<Rightarrow> gate" where
  "z q bits = (bits ! q, bits)"

text \<open>
  The circuit \<^verbatim>\<open>U_f\<close>. The library circuit \<^verbatim>\<open>qf\<close> and its \<^verbatim>\<open>qf.inverse()\<close> are
  parameters. \<^verbatim>\<open>qc.qubits[-1]\<close> is the last of the \<open>n + num_value_qubits\<close> qubits, and
  an \<^verbatim>\<open>IndexError\<close> when the circuit has no qubit.
\<close>

datatype circuit_error = IndexError

definition U_f :: "gate \<Rightarrow> gate \<Rightarrow> nat \<Rightarrow> nat \<Rightarrow> circuit_error + gate list" where
  "U_f qf qf_inverse n num_value_qubits =
     (if n + num_value_qubits = 0 then Inl IndexError
      else Inr [qf, z (n + num_value_qubits - 1), qf_inverse])"

text \<open>The input \<open>|x>|0>\<close>: the data qubits hold \<open>x\<close>, the value qubits are 0.\<close>

definition initial :: "basis \<Rightarrow> nat \<Rightarrow> ket" where
  "initial x m = \<lparr>negated = False, qubits = x @ replicate m False\<rparr>"

subsection \<open>What is assumed of the library circuit\<close>

text \<open>
  The value register holds an integer on \<open>m\<close> qubits, least significant qubit first, in
  two's complement: qubit \<open>j\<close> of the register is the binary digit of weight \<open>2 ^ j\<close>.
\<close>

definition value_qubits :: "nat \<Rightarrow> int \<Rightarrow> basis" where
  "value_qubits m v = map (bit v) [0..<m]"

text \<open>
  Step 1 of the source, \<open>compute Q(x)\<close>: on \<open>|x>|0>\<close> the circuit \<^verbatim>\<open>qf\<close> leaves the data
  qubits and the amplitude as they are and writes \<open>Q x\<close> into the value register.
\<close>

definition computes :: "gate \<Rightarrow> (basis \<Rightarrow> int) \<Rightarrow> nat \<Rightarrow> basis \<Rightarrow> bool" where
  "computes qf Q m x = (qf (x @ replicate m False) = (False, x @ value_qubits m (Q x)))"

text \<open>
  \<^verbatim>\<open>qf.inverse()\<close> is the inverse of \<^verbatim>\<open>qf\<close>: it takes the image of \<open>|x>|0>\<close> back to
  \<open>|x>|0>\<close>, with the same change of sign.
\<close>

definition inverts :: "gate \<Rightarrow> gate \<Rightarrow> nat \<Rightarrow> basis \<Rightarrow> bool" where
  "inverts qf_inverse qf m x =
     (qf_inverse (snd (qf (x @ replicate m False))) =
        (fst (qf (x @ replicate m False)), x @ replicate m False))"

subsection \<open>Reading the registers from a measurement\<close>

text \<open>
  The notebook reads the registers back from the key of a measurement, in which the last
  qubit comes first, and decodes the value register with \<^verbatim>\<open>twos_complement\<close>:
  \<^verbatim>\<open>
  x_ = key[num_value_qubits:]
  x = [0 if x__ == '0' else 1 for x__ in x_][::-1]
  y_bin = key[:num_value_qubits]
  y_int = twos_complement(y_bin, num_value_qubits)
  \<close>
\<close>

definition key_of :: "basis \<Rightarrow> string" where
  "key_of q = map (\<lambda>b. if b then CHR ''1'' else CHR ''0'') (rev q)"

definition x_of_key :: "nat \<Rightarrow> string \<Rightarrow> basis" where
  "x_of_key num_value_qubits key = rev (map (\<lambda>c. c \<noteq> CHR ''0'') (drop num_value_qubits key))"

definition y_int :: "nat \<Rightarrow> string \<Rightarrow> py_error + int" where
  "y_int num_value_qubits key =
     twos_complement (take num_value_qubits key) (int num_value_qubits)"

subsection \<open>A register model of the quadratic-form circuit\<close>

text \<open>
  Modelled from the spec: the library's quadratic-form circuit is not part of the
  notebook. The spec says of the value register that it is a two's-complement
  representation of fixed width in which results that do not fit silently wrap. The
  register model adds \<open>Q x\<close> to the value register modulo \<open>2 ^ m\<close>, and its inverse
  subtracts it.
\<close>

definition register_value :: "basis \<Rightarrow> int" where
  "register_value v = foldr (\<lambda>b a. (if b then 1 else 0) + 2 * a) v 0"

definition register_qf :: "(basis \<Rightarrow> int) \<Rightarrow> nat \<Rightarrow> nat \<Rightarrow> gate" where
  "register_qf Q n m bits =
     (False, take n bits @ value_qubits m (register_value (drop n bits) + Q (take n bits)))"

definition register_qf_inverse :: "(basis \<Rightarrow> int) \<Rightarrow> nat \<Rightarrow> nat \<Rightarrow> gate" where
  "register_qf_inverse Q n m bits =
     (False, take n bits @ value_qubits m (register_value (drop n bits) - Q (take n bits)))"

subsection \<open>The notebook's instance\<close>

text \<open>
  The objective of the notebook's MaxCut model, over its edge list (the weights are the
  floats \<^verbatim>\<open>1.0\<close>, integers here):
  \<^verbatim>\<open>
  edges = [(0, 1, 1.0), (0, 2, 1.0), (0, 3, 1.0), (1, 2, 1.0), (2, 3, 1.0), (2, 4, 1.0), (3, 4, 1.0)]
  objective = mdl.sum([ w * (x[i] + x[j] - 2*x[i]*x[j]) for (i, j, w) in edges])
  \<close>
\<close>

definition edges :: "(nat \<times> nat \<times> int) list" where
  "edges = [(0, 1, 1), (0, 2, 1), (0, 3, 1), (1, 2, 1), (2, 3, 1), (2, 4, 1), (3, 4, 1)]"

definition var :: "basis \<Rightarrow> nat \<Rightarrow> int" where
  "var x i = (if x ! i then 1 else 0)"

definition objective :: "basis \<Rightarrow> int" where
  "objective x =
     sum_list (map (\<lambda>(i, j, w). w * (var x i + var x j - 2 * var x i * var x j)) edges)"

text \<open>
  Modelled from the spec: the conversion of the constraint \<^verbatim>\<open>mdl.sum(x) == b\<close> with
  \<^verbatim>\<open>b = 2\<close> by \<^verbatim>\<open>LinearEqualityToPenalty(penalty=1)\<close> is library code. The spec calls the
  result the penalized MaxCut objective with the cardinality constraint folded in as a
  penalty; the objective is maximized, so the squared violation is subtracted.
\<close>

definition penalized_objective :: "basis \<Rightarrow> int" where
  "penalized_objective x = objective x - 1 * (sum_list (map (\<lambda>b. if b then 1 else 0) x) - 2)\<^sup>2"

section \<open>The adaptive search controller\<close>

text \<open>
  Modelled from the spec: the notebook does not implement the search loop (it calls the
  library's \<^verbatim>\<open>GroverOptimizer\<close>). Section 4.4 of the spec describes the controller as a
  state machine with the states \<open>INIT\<close>, \<open>SEARCHING\<close>, \<open>IMPROVED\<close>, \<open>CONVERGED\<close> and
  \<open>EXHAUSTED\<close>, and section 3 lists the fields of its search state. The transitions
  below are the ones the spec names, each with the guard and the updates the spec gives
  it; the one transition the spec leaves unnamed, from \<open>IMPROVED\<close> back to \<open>SEARCHING\<close>
  for the next round, is \<open>Resume\<close>. The candidate of a round comes from the backend, so
  it is an input of the transition. The spec leaves the growth of the iteration count
  \<open>r\<close> open as a pluggable strategy: it is the parameter \<open>grow\<close>. Each sampled candidate
  is one oracle query, so \<open>queries\<close> counts the rounds, and the budget \<open>max_rounds\<close> is
  exceeded when \<open>queries\<close> is above it. The patience limit counts consecutive rounds
  without improvement, so an improvement sets that counter back to 0. Objective values
  are of any linearly ordered type.
\<close>

datatype phase = INIT | SEARCHING | IMPROVED | CONVERGED | EXHAUSTED

record 'v search_state =
  phase :: phase
  best :: basis
  threshold :: 'v
  iterations :: nat
  queries :: nat
  non_improvement :: nat
  r :: nat

record config =
  minimize :: bool
  patience :: nat
  max_rounds :: nat

datatype event = Start basis | Sample basis | Resume | Converge | Exhaust

text \<open>
  A sampled value improves on the threshold when it is strictly less, for minimization;
  the comparison is inverted for maximization.
\<close>

definition improves :: "config \<Rightarrow> 'v::linorder \<Rightarrow> 'v \<Rightarrow> bool" where
  "improves cfg v t = (if minimize cfg then v < t else t < v)"

fun controller_step ::
  "config \<Rightarrow> (nat \<Rightarrow> nat) \<Rightarrow> (basis \<Rightarrow> 'v::linorder) \<Rightarrow> 'v search_state \<Rightarrow> event
     \<Rightarrow> 'v search_state option" where
  "controller_step cfg grow evaluate s (Start x) =
     (if phase s = INIT
      then Some (s\<lparr>phase := SEARCHING, best := x, threshold := evaluate x, iterations := 0\<rparr>)
      else None)"
| "controller_step cfg grow evaluate s (Sample x) =
     (if phase s \<noteq> SEARCHING then None
      else if improves cfg (evaluate x) (threshold s)
      then Some (s\<lparr>phase := IMPROVED, best := x, threshold := evaluate x, r := 1,
                   iterations := iterations s + 1, queries := queries s + 1,
                   non_improvement := 0\<rparr>)
      else Some (s\<lparr>non_improvement := non_improvement s + 1, r := grow (r s),
                   queries := queries s + 1\<rparr>))"
| "controller_step cfg grow evaluate s Resume =
     (if phase s = IMPROVED then Some (s\<lparr>phase := SEARCHING\<rparr>) else None)"
| "controller_step cfg grow evaluate s Converge =
     (if phase s = SEARCHING \<and> patience cfg < non_improvement s
      then Some (s\<lparr>phase := CONVERGED\<rparr>) else None)"
| "controller_step cfg grow evaluate s Exhaust =
     (if phase s = SEARCHING \<and> max_rounds cfg < queries s
      then Some (s\<lparr>phase := EXHAUSTED\<rparr>) else None)"

text \<open>A run: the states the controller goes through, one for each transition taken.\<close>

fun controller_trace ::
  "config \<Rightarrow> (nat \<Rightarrow> nat) \<Rightarrow> (basis \<Rightarrow> 'v::linorder) \<Rightarrow> 'v search_state \<Rightarrow> event list
     \<Rightarrow> 'v search_state list option" where
  "controller_trace cfg grow evaluate s [] = Some []"
| "controller_trace cfg grow evaluate s (e # es) =
     (case controller_step cfg grow evaluate s e of
        None \<Rightarrow> None
      | Some s' \<Rightarrow>
          (case controller_trace cfg grow evaluate s' es of
             None \<Rightarrow> None
           | Some ss \<Rightarrow> Some (s' # ss)))"

text \<open>The accepted thresholds of a run, in order: the thresholds of its \<open>IMPROVED\<close> states.\<close>

definition accepted_thresholds :: "'v search_state list \<Rightarrow> 'v list" where
  "accepted_thresholds ss = map threshold (filter (\<lambda>s. phase s = IMPROVED) ss)"

section \<open>Properties of the decoder\<close>

lemma int_base2_from_unsigned:
  "bitstring b \<Longrightarrow>
     int_base2_from acc False b = Inr (acc * 2 ^ length b + unsigned_value b, [])"
proof (induction b arbitrary: acc)
  case Nil
  then show ?case by simp
next
  case (Cons c cs)
  then have cs: "bitstring cs" and c: "c = CHR ''0'' \<or> c = CHR ''1''"
    by (simp_all add: bitstring_def)
  from c show ?case
  proof
    assume "c = CHR ''0''"
    then show ?thesis using Cons.IH [OF cs, of "2 * acc"] by simp
  next
    assume "c = CHR ''1''"
    then show ?thesis using Cons.IH [OF cs, of "2 * acc + 1"] by (simp add: algebra_simps)
  qed
qed

text \<open>A string of the digits 0 and 1 has no blank, no sign and no prefix to skip.\<close>

lemma bitstring_plain:
  assumes "bitstring (c # cs)"
  shows "dropWhile is_space (c # cs) = c # cs"
    and "skip_sign (c # cs) = (False, c # cs)"
    and "skip_prefix (c # cs) = c # cs"
proof -
  from assms have c: "c = CHR ''0'' \<or> c = CHR ''1''"
    by (simp add: bitstring_def)
  from c show "dropWhile is_space (c # cs) = c # cs"
    by (auto simp: is_space_def)
  from c show "skip_sign (c # cs) = (False, c # cs)"
    by auto
  show "skip_prefix (c # cs) = c # cs"
  proof (cases cs)
    case Nil
    then show ?thesis by simp
  next
    case (Cons d ds)
    with assms have "d = CHR ''0'' \<or> d = CHR ''1''"
      by (simp add: bitstring_def)
    then show ?thesis
      unfolding Cons by auto
  qed
qed

lemma int_base2_unsigned:
  assumes "bitstring b" and "b \<noteq> []"
  shows "int_base2 b = Inr (unsigned_value b)"
proof -
  from assms(2) obtain c cs where b: "b = c # cs"
    by (cases b) auto
  from assms(1) have c: "c = CHR ''0'' \<or> c = CHR ''1''"
    by (simp add: b bitstring_def)
  then have digit: "\<not> (c \<noteq> CHR ''0'' \<and> c \<noteq> CHR ''1'')"
    by auto
  have bs: "bitstring (c # cs)"
    using assms(1) by (simp only: b)
  have digits: "int_base2_from 0 False (c # cs) = Inr (unsigned_value (c # cs), [])"
    using int_base2_from_unsigned [OF bs, of 0] by simp
  show ?thesis
    unfolding b
    by (simp only: int_base2_def bitstring_plain [OF bs] digits digit
        prod.case list.case sum.case if_False if_True dropWhile.simps(1) simp_thms)
qed

lemma unsigned_value_nonneg: "0 \<le> unsigned_value b"
  by (induction b) simp_all

lemma unsigned_value_less: "unsigned_value b < 2 ^ length b"
proof (induction b)
  case Nil
  then show ?case by simp
next
  case (Cons c cs)
  have "unsigned_value cs < 2 * 2 ^ length cs"
    using Cons.IH zero_less_power [of "2::int" "length cs"] by linarith
  with Cons.IH show ?case by simp
qed

lemma unsigned_value_zeros: "unsigned_value (replicate n (CHR ''0'')) = 0"
  by (induction n) simp_all

lemma unsigned_value_ones: "unsigned_value (replicate n (CHR ''1'')) = 2 ^ n - 1"
  by (induction n) simp_all

lemma bitstring_replicate:
  "c = CHR ''0'' \<or> c = CHR ''1'' \<Longrightarrow> bitstring (replicate n c)"
  by (simp add: bitstring_def list_all_iff)

text \<open>The mask test of the code reads the head of a string of \<open>num_bits\<close> characters.\<close>

lemma div_power_above:
  "0 \<le> u \<Longrightarrow> u < (2::int) ^ n \<Longrightarrow> (2 ^ n + u) div 2 ^ n = 1"
  by (subst div_add_self1) (simp_all add: div_pos_pos_trivial)

lemma bit_unsigned_value_head:
  "bit (unsigned_value (c # cs)) (length cs) = (c = CHR ''1'')"
proof -
  have lt: "unsigned_value cs < 2 ^ length cs" and ge: "0 \<le> unsigned_value cs"
    by (rule unsigned_value_less, rule unsigned_value_nonneg)
  show ?thesis
  proof (cases "c = CHR ''1''")
    case True
    have "unsigned_value (c # cs) div 2 ^ length cs = 1"
      using True lt ge by (simp add: div_power_above)
    then show ?thesis using True by (simp add: bit_iff_odd)
  next
    case False
    have "unsigned_value (c # cs) div 2 ^ length cs = 0"
      using False lt ge by simp
    then show ?thesis using False by (simp add: bit_iff_odd)
  qed
qed

lemma top_bit_is_head:
  "(unsigned_value (c # cs) AND push_bit (length cs) 1 \<noteq> 0) = (c = CHR ''1'')"
  using bit_unsigned_value_head [of c cs]
  by (simp add: push_bit_of_1 and_exp_eq_0_iff_not_bit)

lemma twos_complement_Cons:
  assumes "bitstring (c # cs)"
  shows "twos_complement (c # cs) (int (length (c # cs))) =
    Inr (if c = CHR ''1'' then unsigned_value (c # cs) - 2 ^ length (c # cs)
         else unsigned_value (c # cs))"
proof -
  have p: "int_base2 (c # cs) = Inr (unsigned_value (c # cs))"
    using assms by (rule int_base2_unsigned) simp
  have m: "shl1 (int (length (c # cs)) - 1) = Inr (push_bit (length cs) 1)"
    by (simp add: shl1_def)
  have t: "shl1 (int (length (c # cs))) = Inr (2 ^ length (c # cs))"
    by (simp add: shl1_def nat_add_distrib)
  show ?thesis
    unfolding twos_complement_def p m t sum.case top_bit_is_head
    by simp
qed

lemma twos_complement_own_width:
  assumes "bitstring b" and "b \<noteq> []"
  shows "twos_complement b (int (length b)) =
    Inr (if hd b = CHR ''1'' then unsigned_value b - 2 ^ length b else unsigned_value b)"
proof -
  from assms(2) obtain c cs where b: "b = c # cs"
    by (cases b) auto
  have "hd (c # cs) = c" by simp
  with twos_complement_Cons [of c cs] assms(1) show ?thesis
    unfolding b by presburger
qed

lemma decode_range_cong:
  assumes "bitstring b" and "b \<noteq> []"
  shows "\<exists>r. twos_complement b (int (length b)) = Inr r
           \<and> - (2 ^ (length b - 1)) \<le> r \<and> r \<le> 2 ^ (length b - 1) - 1
           \<and> r mod 2 ^ length b = unsigned_value b mod 2 ^ length b
           \<and> (2 ^ (length b - 1) \<le> unsigned_value b \<longrightarrow> r < 0)"
proof -
  from assms(2) obtain c cs where b: "b = c # cs"
    by (cases b) auto
  have k: "length b - 1 = length cs" and w: "length b = Suc (length cs)"
    by (simp_all add: b)
  have lt: "unsigned_value cs < 2 ^ length cs" and ge: "0 \<le> unsigned_value cs"
    by (rule unsigned_value_less, rule unsigned_value_nonneg)
  have hd: "hd b = c"
    by (simp add: b)
  have dec: "twos_complement b (int (length b)) =
      Inr (if c = CHR ''1'' then unsigned_value b - 2 ^ length b else unsigned_value b)"
    using twos_complement_own_width [OF assms] by (simp only: hd)
  show ?thesis
  proof (cases "c = CHR ''1''")
    case True
    have r: "unsigned_value b - 2 ^ length b = unsigned_value cs - 2 ^ length cs"
      using True by (simp add: b)
    have m: "(unsigned_value b - 2 ^ length b) mod 2 ^ length b =
        unsigned_value b mod 2 ^ length b"
      by simp
    have "twos_complement b (int (length b)) = Inr (unsigned_value cs - 2 ^ length cs)"
      using dec True r by simp
    moreover have "(unsigned_value cs - 2 ^ length cs) mod 2 ^ length b =
        unsigned_value b mod 2 ^ length b"
      using m r by simp
    ultimately show ?thesis
      using lt ge unfolding k by auto
  next
    case False
    have r: "unsigned_value b = unsigned_value cs"
      using False by (simp add: b)
    have "twos_complement b (int (length b)) = Inr (unsigned_value cs)"
      using dec False r by simp
    then show ?thesis
      using lt ge unfolding k r by auto
  qed
qed

subsection \<open>The encoder against the decoder\<close>

lemma length_binary_digits: "length (binary_digits k u) = k"
  by (induction k) simp_all

lemma bitstring_binary_digits: "bitstring (binary_digits k u)"
  by (induction k) (simp_all add: bitstring_def)

lemma unsigned_value_binary_digits: "unsigned_value (binary_digits k u) = take_bit k u"
  by (induction k) (simp_all add: length_binary_digits take_bit_Suc_from_most)

lemma binary_digits_take_bit: "k \<le> n \<Longrightarrow> binary_digits k (take_bit n u) = binary_digits k u"
  by (induction k) (simp_all add: bit_take_bit_iff)

lemma binary_digits_unsigned_value:
  "bitstring b \<Longrightarrow> binary_digits (length b) (unsigned_value b) = b"
proof (induction b)
  case Nil
  then show ?case by simp
next
  case (Cons c cs)
  then have cs: "bitstring cs" and c: "c = CHR ''0'' \<or> c = CHR ''1''"
    by (simp_all add: bitstring_def)
  have lt: "unsigned_value cs < 2 ^ length cs" and ge: "0 \<le> unsigned_value cs"
    by (rule unsigned_value_less, rule unsigned_value_nonneg)
  have "take_bit (length cs) (unsigned_value (c # cs)) = unsigned_value cs"
    using lt ge by (simp add: take_bit_eq_mod)
  then have "binary_digits (length cs) (unsigned_value (c # cs)) =
      binary_digits (length cs) (unsigned_value cs)"
    using binary_digits_take_bit [of "length cs" "length cs" "unsigned_value (c # cs)"]
    by simp
  with Cons.IH [OF cs] have tl: "binary_digits (length cs) (unsigned_value (c # cs)) = cs"
    by simp
  have "binary_digits (length (c # cs)) (unsigned_value (c # cs)) =
      (if bit (unsigned_value (c # cs)) (length cs) then CHR ''1'' else CHR ''0'') #
      binary_digits (length cs) (unsigned_value (c # cs))"
    by simp
  also have "\<dots> = c # cs"
    unfolding tl bit_unsigned_value_head using c by auto
  finally show ?case .
qed

lemma window_unique:
  fixes r v :: int
  assumes "- (2 ^ k) \<le> r" "r < 2 ^ k" "- (2 ^ k) \<le> v" "v < 2 ^ k"
    and "r mod 2 ^ Suc k = v mod 2 ^ Suc k"
  shows "r = v"
proof -
  have "(r + 2 ^ k) mod 2 ^ Suc k = (v + 2 ^ k) mod 2 ^ Suc k"
    using assms(5) by (metis mod_add_left_eq)
  moreover have "(r + 2 ^ k) mod 2 ^ Suc k = r + 2 ^ k"
    using assms(1,2) by (simp add: mod_pos_pos_trivial)
  moreover have "(v + 2 ^ k) mod 2 ^ Suc k = v + 2 ^ k"
    using assms(3,4) by (simp add: mod_pos_pos_trivial)
  ultimately show ?thesis by simp
qed

lemma decode_encode:
  assumes "representable w v"
  shows "\<exists>b. encode v w = Inr b \<and> twos_complement b (int w) = Inr v"
proof -
  let ?b = "binary_digits w (v mod 2 ^ w)"
  from assms obtain k where w: "w = Suc k"
    by (cases w) (auto simp: representable_def)
  have enc: "encode v w = Inr ?b"
    using assms by (simp add: encode_def)
  have len: "length ?b = w" and bs: "bitstring ?b"
    by (rule length_binary_digits, rule bitstring_binary_digits)
  have ne: "?b \<noteq> []"
    using len w by auto
  have u: "unsigned_value ?b mod 2 ^ w = v mod 2 ^ w"
    by (simp add: unsigned_value_binary_digits take_bit_eq_mod)
  from decode_range_cong [OF bs ne] obtain r where
    r: "twos_complement ?b (int w) = Inr r" "- (2 ^ (w - 1)) \<le> r" "r \<le> 2 ^ (w - 1) - 1"
       "r mod 2 ^ w = unsigned_value ?b mod 2 ^ w"
    unfolding len by blast
  have "r = v"
    using window_unique [of k r v] r(2,3,4) u assms by (simp add: w representable_def)
  with enc r(1) show ?thesis by simp
qed

lemma encode_decode:
  assumes "bitstring b" and "b \<noteq> []"
  shows "\<exists>r. twos_complement b (int (length b)) = Inr r \<and> encode r (length b) = Inr b"
proof -
  from decode_range_cong [OF assms] obtain r where
    r: "twos_complement b (int (length b)) = Inr r"
       "- (2 ^ (length b - 1)) \<le> r" "r \<le> 2 ^ (length b - 1) - 1"
       "r mod 2 ^ length b = unsigned_value b mod 2 ^ length b"
    by blast
  have "1 \<le> length b"
    using assms(2) by (cases b) auto
  then have rep: "representable (length b) r"
    using r(2,3) by (simp add: representable_def)
  have "binary_digits (length b) (r mod 2 ^ length b) =
      binary_digits (length b) (take_bit (length b) (unsigned_value b))"
    by (simp add: r(4) take_bit_eq_mod)
  also have "\<dots> = b"
    by (simp add: binary_digits_take_bit binary_digits_unsigned_value [OF assms(1)])
  finally show ?thesis
    using r(1) rep by (simp add: encode_def)
qed

text \<open>
  C1. For a bit string \<open>b\<close> of length \<open>w \<ge> 1\<close>, decoded at its own width, the decoder
  returns the two's-complement reading: the unsigned value of \<open>b\<close> minus \<open>2 ^ w\<close> when
  the most significant (leftmost) bit is 1, and the unsigned value otherwise. It is a
  function of its arguments alone. At the boundaries: the all-zero string decodes to 0,
  the string with only the top bit set to \<open>- 2 ^ (w - 1)\<close>, the all-ones string to \<open>- 1\<close>.
\<close>

theorem twos_complement_decodes:
  assumes "bitstring b" and "length b = w" and "1 \<le> w"
  shows "twos_complement b (int w) =
           Inr (if hd b = CHR ''1'' then unsigned_value b - 2 ^ w else unsigned_value b)
       \<and> twos_complement (replicate w (CHR ''0'')) (int w) = Inr 0
       \<and> twos_complement (CHR ''1'' # replicate (w - 1) (CHR ''0'')) (int w) = Inr (- (2 ^ (w - 1)))
       \<and> twos_complement (replicate w (CHR ''1'')) (int w) = Inr (- 1)"
proof -
  from assms(2,3) have ne: "b \<noteq> []"
    by auto
  from assms(3) obtain k where w: "w = Suc k"
    by (cases w) auto
  have general: "twos_complement b (int w) =
      Inr (if hd b = CHR ''1'' then unsigned_value b - 2 ^ w else unsigned_value b)"
    using twos_complement_own_width [OF assms(1) ne] by (simp only: assms(2))
  have z: "bitstring (CHR ''0'' # replicate k (CHR ''0''))"
    and t: "bitstring (CHR ''1'' # replicate k (CHR ''0''))"
    and o: "bitstring (CHR ''1'' # replicate k (CHR ''1''))"
    by (simp_all add: bitstring_def list_all_iff)
  have zeros: "twos_complement (replicate w (CHR ''0'')) (int w) = Inr 0"
    using twos_complement_Cons [OF z] by (simp add: w unsigned_value_zeros)
  have top: "twos_complement (CHR ''1'' # replicate (w - 1) (CHR ''0'')) (int w) =
      Inr (- (2 ^ (w - 1)))"
    using twos_complement_Cons [OF t] by (simp add: w unsigned_value_zeros)
  have ones: "twos_complement (replicate w (CHR ''1'')) (int w) = Inr (- 1)"
    using twos_complement_Cons [OF o] by (simp add: w unsigned_value_ones)
  from general zeros top ones show ?thesis by blast
qed

theorem twos_complement_decodes_witness:
  "bitstring ''0101'' \<and> length ''0101'' = 4 \<and> (1::nat) \<le> 4
   \<and> twos_complement ''0101'' 4 = Inr 5
   \<and> twos_complement ''0000'' 4 = Inr 0
   \<and> twos_complement ''1000'' 4 = Inr (- 8)
   \<and> twos_complement ''1111'' 4 = Inr (- 1)"
proof -
  have h: "bitstring ''0101''" "length ''0101'' = 4" "(1::nat) \<le> 4"
    by (simp_all add: bitstring_def)
  show ?thesis
    using h twos_complement_decodes [OF h] by (simp add: numeral_eq_Suc)
qed

text \<open>
  C9. For a bit string \<open>b\<close> of length exactly \<open>w \<ge> 1\<close> the decoder returns a result in
  the representable range \<open>- 2 ^ (w - 1) .. 2 ^ (w - 1) - 1\<close> that is congruent to the
  unsigned value of \<open>b\<close> modulo \<open>2 ^ w\<close>. So an unsigned value of at least
  \<open>2 ^ (w - 1)\<close> comes back negative, with no error: 10 on 4 bits decodes to \<open>- 6\<close>.
\<close>

theorem twos_complement_wraps:
  assumes "bitstring b" and "length b = w" and "1 \<le> w"
  shows "\<exists>r. twos_complement b (int w) = Inr r
           \<and> - (2 ^ (w - 1)) \<le> r \<and> r \<le> 2 ^ (w - 1) - 1
           \<and> r mod 2 ^ w = unsigned_value b mod 2 ^ w
           \<and> (2 ^ (w - 1) \<le> unsigned_value b \<longrightarrow> r < 0)"
proof -
  from assms(2,3) have ne: "b \<noteq> []"
    by auto
  show ?thesis
    using decode_range_cong [OF assms(1) ne] by (simp only: assms(2))
qed

theorem twos_complement_wraps_witness:
  "bitstring ''1010'' \<and> length ''1010'' = 4 \<and> (1::nat) \<le> 4
   \<and> unsigned_value ''1010'' = 10
   \<and> twos_complement ''1010'' 4 = Inr (- 6)
   \<and> - (2 ^ (4 - 1)) \<le> (- 6 :: int) \<and> (- 6 :: int) \<le> 2 ^ (4 - 1) - 1
   \<and> (- 6 :: int) mod 2 ^ 4 = 10 mod 2 ^ 4"
proof -
  have h: "bitstring ''1010''" "length ''1010'' = 4" "(1::nat) \<le> 4"
    by (simp_all add: bitstring_def)
  have d: "twos_complement ''1010'' 4 = Inr (- 6)"
    by code_simp
  from twos_complement_wraps [OF h] d h show ?thesis
    by simp
qed

text \<open>
  C2. The codec round-trips. For every width \<open>w \<ge> 1\<close> (so for every width from 1 to 16)
  and every value \<open>v\<close> with \<open>- 2 ^ (w - 1) \<le> v \<le> 2 ^ (w - 1) - 1\<close>, encoding succeeds and
  the notebook's decoder returns \<open>v\<close> on the encoded string. For every non-empty bit
  string \<open>b\<close>, the decoder succeeds at width \<open>length b\<close> and encoding its result at that
  width gives \<open>b\<close> back.
\<close>

theorem codec_round_trip:
  "(1 \<le> w \<and> - (2 ^ (w - 1)) \<le> v \<and> v \<le> 2 ^ (w - 1) - 1 \<longrightarrow>
      (\<exists>b. encode v w = Inr b \<and> twos_complement b (int w) = Inr v))
   \<and> (bitstring b \<and> b \<noteq> [] \<longrightarrow>
      (\<exists>r. twos_complement b (int (length b)) = Inr r \<and> encode r (length b) = Inr b))"
  using decode_encode [of w v] encode_decode [of b]
  by (simp add: representable_def)

theorem codec_round_trip_witness:
  "(1::nat) \<le> 4 \<and> - (2 ^ (4 - 1)) \<le> (- 6 :: int) \<and> (- 6 :: int) \<le> 2 ^ (4 - 1) - 1
   \<and> encode (- 6) 4 = Inr ''1010'' \<and> twos_complement ''1010'' 4 = Inr (- 6)
   \<and> bitstring ''0111'' \<and> ''0111'' \<noteq> []
   \<and> twos_complement ''0111'' 4 = Inr 7 \<and> encode 7 4 = Inr ''0111''"
proof -
  have e: "encode (- 6) 4 = Inr ''1010''" "encode 7 4 = Inr ''0111''"
    by (simp_all add: encode_def representable_def numeral_eq_Suc)
  have d: "twos_complement ''0111'' 4 = Inr 7"
    by code_simp
  from codec_round_trip [of 4 "- 6" "''0111''"] e d show ?thesis
    by (simp add: bitstring_def)
qed

section \<open>Properties of the oracle circuit\<close>

lemma length_value_qubits: "length (value_qubits m v) = m"
  by (simp add: value_qubits_def)

lemma top_value_qubit:
  assumes "length x = n" and "1 \<le> m"
  shows "(x @ value_qubits m v) ! (n + m - Suc 0) = bit v (m - Suc 0)"
proof -
  have i: "n + m - Suc 0 = length x + (m - Suc 0)"
    using assms by simp
  have "(x @ value_qubits m v) ! (n + m - Suc 0) = value_qubits m v ! (m - Suc 0)"
    unfolding i by (rule nth_append_length_plus)
  also have "\<dots> = bit v (m - Suc 0)"
    using assms(2) by (simp add: value_qubits_def)
  finally show ?thesis .
qed

lemma sign_bit_in_range:
  fixes v :: int
  assumes "1 \<le> m" and "- (2 ^ (m - 1)) \<le> v" and "v < 2 ^ (m - 1)"
  shows "bit v (m - 1) = (v < 0)"
proof (cases "v < 0")
  case True
  have "(v + 2 ^ (m - 1)) div 2 ^ (m - 1) = 0"
    using True assms(2) by (simp add: div_pos_pos_trivial)
  moreover have "(v + 2 ^ (m - 1)) div 2 ^ (m - 1) = v div 2 ^ (m - 1) + 1"
    by (rule div_add_self2) simp
  ultimately have "v div 2 ^ (m - 1) = - 1"
    by simp
  then show ?thesis using True by (simp add: bit_iff_odd)
next
  case False
  then have "v div 2 ^ (m - 1) = 0"
    using assms(3) by (simp add: div_pos_pos_trivial)
  then show ?thesis using False by (simp add: bit_iff_odd)
qed

lemma U_f_sign_qubit:
  assumes "length x = n" and "1 \<le> m"
    and "computes qf Q m x" and "inverts qf_inverse qf m x"
  shows "U_f qf qf_inverse n m = Inr [qf, z (n + m - 1), qf_inverse]"
    and "run [qf, z (n + m - 1), qf_inverse] (initial x m) =
      \<lparr>negated = bit (Q x) (m - 1), qubits = x @ replicate m False\<rparr>"
proof -
  show "U_f qf qf_inverse n m = Inr [qf, z (n + m - 1), qf_inverse]"
    using assms(2) by (simp add: U_f_def)
  have c: "qf (x @ replicate m False) = (False, x @ value_qubits m (Q x))"
    using assms(3) by (simp add: computes_def)
  have u: "qf_inverse (x @ value_qubits m (Q x)) = (False, x @ replicate m False)"
    using assms(4) by (simp add: inverts_def c)
  have s1: "apply_gate qf (initial x m) =
      \<lparr>negated = False, qubits = x @ value_qubits m (Q x)\<rparr>"
    by (simp add: apply_gate_def initial_def c)
  have s2: "apply_gate (z (n + m - 1)) \<lparr>negated = False, qubits = x @ value_qubits m (Q x)\<rparr> =
      \<lparr>negated = bit (Q x) (m - 1), qubits = x @ value_qubits m (Q x)\<rparr>"
    by (simp add: apply_gate_def z_def top_value_qubit [OF assms(1,2)])
  have s3: "apply_gate qf_inverse \<lparr>negated = bit (Q x) (m - 1), qubits = x @ value_qubits m (Q x)\<rparr> =
      \<lparr>negated = bit (Q x) (m - 1), qubits = x @ replicate m False\<rparr>"
    by (simp add: apply_gate_def u)
  show "run [qf, z (n + m - 1), qf_inverse] (initial x m) =
      \<lparr>negated = bit (Q x) (m - 1), qubits = x @ replicate m False\<rparr>"
    by (simp only: run_def fold_simps s1 s2 s3)
qed

lemma register_value_zeros: "register_value (replicate m False) = 0"
  by (induction m) (simp_all add: register_value_def)

lemma register_qf_computes:
  "length x = n \<Longrightarrow> computes (register_qf Q n m) Q m x"
  by (simp add: computes_def register_qf_def register_value_zeros)

lemma register_value_value_qubits: "register_value (value_qubits m v) = take_bit m v"
proof (induction m arbitrary: v)
  case 0
  then show ?case by (simp add: value_qubits_def register_value_def)
next
  case (Suc m)
  have "value_qubits (Suc m) v = bit v 0 # value_qubits m (v div 2)"
    by (simp add: value_qubits_def upt_rec [of 0 "Suc m"] map_Suc_upt [symmetric] bit_Suc del: upt_Suc)
  then have "register_value (value_qubits (Suc m) v) =
      (if bit v 0 then 1 else 0) + 2 * register_value (value_qubits m (v div 2))"
    by (simp add: register_value_def)
  also have "\<dots> = (if odd v then 1 else 0) + 2 * take_bit m (v div 2)"
    by (simp add: Suc.IH bit_0)
  also have "\<dots> = take_bit (Suc m) v"
    by (simp add: take_bit_Suc mod_2_eq_odd)
  finally show ?case .
qed

lemma value_qubits_multiple: "value_qubits m (take_bit m v - v) = replicate m False"
proof -
  have zero: "take_bit m (take_bit m v - v) = 0"
    by (simp add: take_bit_eq_mod mod_diff_left_eq)
  have "\<not> bit (take_bit m v - v) j" if "j < m" for j
  proof -
    have "bit (take_bit m (take_bit m v - v)) j = bit (take_bit m v - v) j"
      using that by (simp add: bit_take_bit_iff)
    then show ?thesis
      by (simp add: zero)
  qed
  then show ?thesis
    by (simp add: value_qubits_def list_eq_iff_nth_eq)
qed

lemma register_qf_inverts:
  "length x = n \<Longrightarrow> inverts (register_qf_inverse Q n m) (register_qf Q n m) m x"
  by (simp add: inverts_def register_qf_def register_qf_inverse_def register_value_zeros
      length_value_qubits register_value_value_qubits value_qubits_multiple)

text \<open>
  The read-out of the notebook agrees with the layout of the value register: from the
  key of \<open>|x>|v>\<close> it recovers \<open>x\<close>, and the decoder returns \<open>v\<close> when \<open>v\<close> fits the
  register.
\<close>

lemma key_of_value_qubits:
  "map (\<lambda>b. if b then CHR ''1'' else CHR ''0'') (rev (value_qubits m v)) = binary_digits m v"
  by (induction m) (simp_all add: value_qubits_def)

lemma decode_binary_digits:
  assumes "representable m v"
  shows "twos_complement (binary_digits m v) (int m) = Inr v"
proof -
  have "binary_digits m (v mod 2 ^ m) = binary_digits m v"
    using binary_digits_take_bit [of m m v] by (simp add: take_bit_eq_mod)
  with decode_encode [OF assms] assms show ?thesis
    by (simp add: encode_def)
qed

lemma read_out_registers:
  assumes "representable m v"
  shows "y_int m (key_of (x @ value_qubits m v)) = Inr v"
    and "x_of_key m (key_of (x @ value_qubits m v)) = x"
proof -
  have key: "key_of (x @ value_qubits m v) =
      binary_digits m v @ map (\<lambda>b. if b then CHR ''1'' else CHR ''0'') (rev x)"
    by (simp add: key_of_def key_of_value_qubits)
  show "y_int m (key_of (x @ value_qubits m v)) = Inr v"
    unfolding key y_int_def
    by (simp add: length_binary_digits decode_binary_digits [OF assms])
  have "map (\<lambda>c. c \<noteq> CHR ''0'') (map (\<lambda>b. if b then CHR ''1'' else CHR ''0'') (rev x)) = rev x"
    by (induction x) simp_all
  then show "x_of_key m (key_of (x @ value_qubits m v)) = x"
    unfolding key x_of_key_def
    by (simp add: length_binary_digits)
qed

text \<open>
  The notebook's instance fits its five value qubits on every input: the penalized
  objective lies between \<open>- 9\<close> and \<open>5\<close>.
\<close>

lemma notebook_objective_fits:
  assumes "length x = 5"
  shows "- (2 ^ (5 - 1)) \<le> penalized_objective x \<and> penalized_objective x < 2 ^ (5 - 1)"
proof -
  from assms obtain a b c d e where x: "x = [a, b, c, d, e]"
    by (auto simp: length_Suc_conv numeral_eq_Suc)
  show ?thesis
    unfolding x penalized_objective_def objective_def edges_def var_def power2_eq_square
    by (cases a; cases b; cases c; cases d; cases e; simp)
qed

lemma penalized_objective_ones:
  "penalized_objective [True, True, True, True, True] = - 9"
  by (simp add: penalized_objective_def objective_def edges_def var_def power2_eq_square)

lemma penalized_objective_11000:
  "penalized_objective [True, True, False, False, False] = 3"
  by (simp add: penalized_objective_def objective_def edges_def var_def power2_eq_square)

text \<open>
  C10. \<^verbatim>\<open>U_f\<close> is the quadratic-form circuit, a phase flip conditioned on the top (sign)
  value qubit, and the inverse quadratic-form circuit. On a basis input \<open>|x>|0>\<close>, with
  \<^verbatim>\<open>qf\<close> computing \<open>Q x\<close> into the value register, \<^verbatim>\<open>qf.inverse()\<close> undoing it, and
  \<open>Q x\<close> within the range of the \<open>m\<close> value qubits (as it is for the notebook's
  instance, \<open>notebook_objective_fits\<close>), the result is \<open>|x>|0>\<close> again: the data qubits
  and the value register are as they were, and the amplitude has changed sign exactly
  when \<open>Q x < 0\<close>.
\<close>

theorem U_f_restores_registers:
  assumes "length x = n" and "1 \<le> m"
    and "computes qf Q m x" and "inverts qf_inverse qf m x"
    and "- (2 ^ (m - 1)) \<le> Q x" and "Q x < 2 ^ (m - 1)"
  shows "\<exists>c. U_f qf qf_inverse n m = Inr c
           \<and> c = [qf, z (n + m - 1), qf_inverse]
           \<and> run c (initial x m) = \<lparr>negated = (Q x < 0), qubits = x @ replicate m False\<rparr>
           \<and> qubits (run c (initial x m)) = qubits (initial x m)"
proof -
  have "bit (Q x) (m - 1) = (Q x < 0)"
    using assms(2,5,6) by (rule sign_bit_in_range)
  with U_f_sign_qubit [OF assms(1-4)] show ?thesis
    by (simp add: initial_def)
qed

theorem U_f_restores_registers_witness:
  "length [True, True, True, True, True] = 5 \<and> (1::nat) \<le> 5
   \<and> computes (register_qf penalized_objective 5 5) penalized_objective 5
        [True, True, True, True, True]
   \<and> inverts (register_qf_inverse penalized_objective 5 5) (register_qf penalized_objective 5 5) 5
        [True, True, True, True, True]
   \<and> - (2 ^ (5 - 1)) \<le> penalized_objective [True, True, True, True, True]
   \<and> penalized_objective [True, True, True, True, True] < 2 ^ (5 - 1)
   \<and> (\<exists>c. U_f (register_qf penalized_objective 5 5) (register_qf_inverse penalized_objective 5 5) 5 5
          = Inr c
        \<and> run c (initial [True, True, True, True, True] 5) =
            \<lparr>negated = True,
             qubits = [True, True, True, True, True, False, False, False, False, False]\<rparr>)"
proof -
  let ?x = "[True, True, True, True, True]"
  have h: "length ?x = 5" "(1::nat) \<le> 5"
    "computes (register_qf penalized_objective 5 5) penalized_objective 5 ?x"
    "inverts (register_qf_inverse penalized_objective 5 5) (register_qf penalized_objective 5 5) 5 ?x"
    "- (2 ^ (5 - 1)) \<le> penalized_objective ?x" "penalized_objective ?x < 2 ^ (5 - 1)"
    by (simp_all add: register_qf_computes register_qf_inverts penalized_objective_ones)
  from U_f_restores_registers [OF h] h show ?thesis
    by (simp add: penalized_objective_ones numeral_eq_Suc)
qed

section \<open>Properties of the controller\<close>

lemma improves_trans:
  "improves cfg a b \<Longrightarrow> improves cfg b c \<Longrightarrow> improves cfg a c"
  by (auto simp: improves_def split: if_splits)

lemma controller_step_leaves_INIT:
  "controller_step cfg grow evaluate s e = Some s' \<Longrightarrow> phase s' \<noteq> INIT"
  by (cases e) (auto split: if_splits)

lemma controller_step_threshold:
  assumes "controller_step cfg grow evaluate s e = Some s'" and "phase s \<noteq> INIT"
  shows "if phase s' = IMPROVED then improves cfg (threshold s') (threshold s)
         else threshold s' = threshold s"
  using assms by (cases e) (auto split: if_splits)

lemma accepted_thresholds_Cons:
  "accepted_thresholds (s # ss) =
     (if phase s = IMPROVED then threshold s # accepted_thresholds ss
      else accepted_thresholds ss)"
  by (simp add: accepted_thresholds_def)

lemma trace_improves:
  assumes "controller_trace cfg grow evaluate s es = Some ss" and "phase s \<noteq> INIT"
  shows "(\<forall>t \<in> set (accepted_thresholds ss). improves cfg t (threshold s))
       \<and> sorted_wrt (\<lambda>a b. improves cfg b a) (accepted_thresholds ss)"
  using assms
proof (induction es arbitrary: s ss)
  case Nil
  then show ?case by (simp add: accepted_thresholds_def)
next
  case (Cons e es)
  from Cons.prems(1) obtain s' ss' where
    step: "controller_step cfg grow evaluate s e = Some s'"
    and rest: "controller_trace cfg grow evaluate s' es = Some ss'"
    and ss: "ss = s' # ss'"
    by (auto split: option.splits)
  have ph: "phase s' \<noteq> INIT"
    using step by (rule controller_step_leaves_INIT)
  from Cons.IH [OF rest ph]
  have below: "\<forall>t \<in> set (accepted_thresholds ss'). improves cfg t (threshold s')"
    and sorted: "sorted_wrt (\<lambda>a b. improves cfg b a) (accepted_thresholds ss')"
    by simp_all
  note th = controller_step_threshold [OF step Cons.prems(2)]
  show ?case
  proof (cases "phase s' = IMPROVED")
    case True
    then have up: "improves cfg (threshold s') (threshold s)"
      using th by simp
    have "\<forall>t \<in> set (accepted_thresholds ss'). improves cfg t (threshold s)"
      using below up by (blast intro: improves_trans)
    then show ?thesis
      using True up below sorted by (simp add: ss accepted_thresholds_Cons)
  next
    case False
    then have "threshold s' = threshold s"
      using th by simp
    then show ?thesis
      using False below sorted by (simp add: ss accepted_thresholds_Cons)
  qed
qed

lemma trace_sorted:
  assumes "controller_trace cfg grow evaluate s es = Some ss"
  shows "sorted_wrt (\<lambda>a b. improves cfg b a) (accepted_thresholds ss)"
proof (cases "phase s = INIT")
  case False
  with trace_improves [OF assms] show ?thesis by simp
next
  case True
  show ?thesis
  proof (cases es)
    case Nil
    with assms show ?thesis by (simp add: accepted_thresholds_def)
  next
    case (Cons e es')
    from assms obtain s' ss' where
      step: "controller_step cfg grow evaluate s e = Some s'"
      and rest: "controller_trace cfg grow evaluate s' es' = Some ss'"
      and ss: "ss = s' # ss'"
      unfolding Cons by (auto split: option.splits)
    have ph: "phase s' \<noteq> INIT"
      using step by (rule controller_step_leaves_INIT)
    have "phase s' \<noteq> IMPROVED"
      using step True by (cases e) (auto split: if_splits)
    with trace_improves [OF rest ph] show ?thesis
      by (simp add: ss accepted_thresholds_Cons)
  qed
qed

text \<open>
  C5. Across any run of the controller the accepted thresholds strictly improve: each one
  is strictly less than every one accepted before it for minimization, and strictly
  greater for maximization. A transition from \<open>SEARCHING\<close> to \<open>IMPROVED\<close> is taken only
  when the value of the sampled candidate strictly improves on the current threshold, and
  the new threshold is that value; after \<open>INIT\<close> no other transition changes the
  threshold.
\<close>

theorem accepted_thresholds_strictly_improve:
  assumes "controller_trace cfg grow evaluate s es = Some ss"
  shows "(minimize cfg \<longrightarrow> sorted_wrt (>) (accepted_thresholds ss))
       \<and> (\<not> minimize cfg \<longrightarrow> sorted_wrt (<) (accepted_thresholds ss))
       \<and> (controller_step cfg grow evaluate s1 (Sample x) = Some s2 \<and> phase s2 = IMPROVED \<longrightarrow>
            phase s1 = SEARCHING \<and> threshold s2 = evaluate x
            \<and> (if minimize cfg then evaluate x < threshold s1 else threshold s1 < evaluate x))
       \<and> (controller_step cfg grow evaluate s1 e = Some s2 \<and> threshold s2 \<noteq> threshold s1 \<longrightarrow>
            phase s1 = INIT \<or> phase s2 = IMPROVED)"
proof -
  have min: "sorted_wrt (>) (accepted_thresholds ss)" if "minimize cfg"
    using trace_sorted [OF assms] that by (simp add: improves_def)
  have max: "sorted_wrt (<) (accepted_thresholds ss)" if "\<not> minimize cfg"
    using trace_sorted [OF assms] that by (simp add: improves_def)
  have one: "phase s1 = SEARCHING \<and> threshold s2 = evaluate x
      \<and> (if minimize cfg then evaluate x < threshold s1 else threshold s1 < evaluate x)"
    if "controller_step cfg grow evaluate s1 (Sample x) = Some s2" "phase s2 = IMPROVED"
    using that by (auto simp: improves_def split: if_splits)
  have only: "phase s1 = INIT \<or> phase s2 = IMPROVED"
    if "controller_step cfg grow evaluate s1 e = Some s2" "threshold s2 \<noteq> threshold s1"
    using that by (cases e) (auto split: if_splits)
  from min max one only show ?thesis by blast
qed


theorem accepted_thresholds_strictly_improve_witness:
  "controller_trace \<lparr>minimize = True, patience = 3, max_rounds = 10\<rparr> Suc penalized_objective
     \<lparr>phase = INIT, best = [], threshold = 0, iterations = 0, queries = 0,
      non_improvement = 0, r = 1\<rparr>
     [Start [True, True, False, False, False], Sample [False, False, False, False, False],
      Resume, Sample [True, True, True, True, True], Resume,
      Sample [False, False, False, False, False]]
   = Some
     [\<lparr>phase = SEARCHING, best = [True, True, False, False, False], threshold = 3,
       iterations = 0, queries = 0, non_improvement = 0, r = 1\<rparr>,
      \<lparr>phase = IMPROVED, best = [False, False, False, False, False], threshold = - 4,
       iterations = 1, queries = 1, non_improvement = 0, r = 1\<rparr>,
      \<lparr>phase = SEARCHING, best = [False, False, False, False, False], threshold = - 4,
       iterations = 1, queries = 1, non_improvement = 0, r = 1\<rparr>,
      \<lparr>phase = IMPROVED, best = [True, True, True, True, True], threshold = - 9,
       iterations = 2, queries = 2, non_improvement = 0, r = 1\<rparr>,
      \<lparr>phase = SEARCHING, best = [True, True, True, True, True], threshold = - 9,
       iterations = 2, queries = 2, non_improvement = 0, r = 1\<rparr>,
      \<lparr>phase = SEARCHING, best = [True, True, True, True, True], threshold = - 9,
       iterations = 2, queries = 3, non_improvement = 1, r = 2\<rparr>]
   \<and> sorted_wrt (>) [- 4, - 9 :: int]"
proof -
  let ?cfg = "\<lparr>minimize = True, patience = 3, max_rounds = 10\<rparr>"
  let ?s0 = "\<lparr>phase = INIT, best = [], threshold = 0 :: int, iterations = 0, queries = 0,
      non_improvement = 0, r = 1\<rparr>"
  let ?es = "[Start [True, True, False, False, False], Sample [False, False, False, False, False],
      Resume, Sample [True, True, True, True, True], Resume,
      Sample [False, False, False, False, False]]"
  have v: "penalized_objective [False, False, False, False, False] = - 4"
    by (simp add: penalized_objective_def objective_def edges_def var_def power2_eq_square)
  have t: "controller_trace ?cfg Suc penalized_objective ?s0 ?es = Some
     [\<lparr>phase = SEARCHING, best = [True, True, False, False, False], threshold = 3,
       iterations = 0, queries = 0, non_improvement = 0, r = 1\<rparr>,
      \<lparr>phase = IMPROVED, best = [False, False, False, False, False], threshold = - 4,
       iterations = 1, queries = 1, non_improvement = 0, r = 1\<rparr>,
      \<lparr>phase = SEARCHING, best = [False, False, False, False, False], threshold = - 4,
       iterations = 1, queries = 1, non_improvement = 0, r = 1\<rparr>,
      \<lparr>phase = IMPROVED, best = [True, True, True, True, True], threshold = - 9,
       iterations = 2, queries = 2, non_improvement = 0, r = 1\<rparr>,
      \<lparr>phase = SEARCHING, best = [True, True, True, True, True], threshold = - 9,
       iterations = 2, queries = 2, non_improvement = 0, r = 1\<rparr>,
      \<lparr>phase = SEARCHING, best = [True, True, True, True, True], threshold = - 9,
       iterations = 2, queries = 3, non_improvement = 1, r = 2\<rparr>]"
    by (simp add: improves_def v penalized_objective_ones penalized_objective_11000)
  from accepted_thresholds_strictly_improve [OF t] t show ?thesis
    by (simp add: accepted_thresholds_def)
qed

end
